theory Spec2Isabelle
  imports Complex_Main
begin

section \<open>Data model\<close>

text \<open>
  The exceptions the modelled code can raise. \<open>ZeroDivisionError\<close> and \<open>IndexError\<close>
  are Python's implicit failures of \<open>%\<close>, \<open>/\<close> and list subscripting, \<open>ValueError\<close>
  is raised by \<open>factorial\<close>. \<open>OutOfFuel\<close> is not a Python exception: \<open>insert\<close> and
  \<open>_resize\<close> call each other, and the model bounds the nesting depth of resizes
  by a fuel argument; \<open>OutOfFuel\<close> is the result when that bound is hit.
\<close>

datatype error = ZeroDivisionError | IndexError | ValueError | OutOfFuel

text \<open>
  A stored value has Python type \<open>Any\<close>: it is \<open>None\<close> or some object. \<open>get\<close> returns
  \<open>Optional[Any]\<close>, which is the same type.
\<close>

datatype 'v pyval = PyNone | PyObj 'v

type_synonym 'v entry = "string \<times> 'v pyval"
type_synonym 'v bucket = "'v entry list"

text \<open>
  The fields \<open>_capacity\<close>, \<open>_buckets\<close> and \<open>_size\<close> of \<open>HashTableSeparateChaining\<close>.
\<close>

record 'v table =
  capacity :: int
  buckets :: "'v bucket list"
  size_tbl :: int

text \<open>
  Python's builtin \<open>hash\<close> on strings is a parameter \<open>h\<close> of every operation: it is
  some function from strings to integers, fixed during one run of the program.
\<close>

type_synonym hash = "string \<Rightarrow> int"

section \<open>Python primitives\<close>

text \<open>
  List subscripting \<open>xs[i]\<close>: a negative index counts from the end, anything outside
  \<open>-len(xs) .. len(xs) - 1\<close> raises \<open>IndexError\<close>. \<open>py_pos\<close> gives the position read.
\<close>

definition py_pos :: "'a list \<Rightarrow> int \<Rightarrow> error + nat" where
  "py_pos xs i =
     (if 0 \<le> i \<and> i < int (length xs) then Inr (nat i)
      else if i < 0 \<and> - int (length xs) \<le> i then Inr (nat (int (length xs) + i))
      else Inl IndexError)"

section \<open>HashTableSeparateChaining\<close>

text \<open>\<open>__init__\<close>\<close>

definition init :: "int \<Rightarrow> 'v table" where
  "init cap =
     \<lparr> capacity = max 5 cap,
       buckets = replicate (nat (max 5 cap)) [],
       size_tbl = 0 \<rparr>"

text \<open>\<open>_index\<close>: \<open>hash(key) % self._capacity\<close>; Python's \<open>%\<close> on integers is HOL's \<open>mod\<close>.\<close>

definition index :: "hash \<Rightarrow> 'v table \<Rightarrow> string \<Rightarrow> error + int" where
  "index h t key =
     (if capacity t = 0 then Inl ZeroDivisionError else Inr (h key mod capacity t))"

text \<open>
  \<open>load_factor\<close> and \<open>_should_resize\<close>. The quotient is a Python float; it is modelled
  as the exact real quotient. (Python's \<open>int / int\<close> is the correctly rounded quotient
  and \<open>0.75\<close> is a float, so the comparison with \<open>0.75\<close> agrees with the exact one
  for every capacity below \<open>2 ^ 51\<close>.)
\<close>

definition load_factor :: "'v table \<Rightarrow> error + real" where
  "load_factor t =
     (if capacity t = 0 then Inl ZeroDivisionError
      else Inr (real_of_int (size_tbl t) / real_of_int (capacity t)))"

definition should_resize :: "'v table \<Rightarrow> error + bool" where
  "should_resize t =
     (case load_factor t of Inl e \<Rightarrow> Inl e | Inr lf \<Rightarrow> Inr (lf > 0.75))"

text \<open>
  The scan \<open>for i, (k, _) in enumerate(bucket): if k == key\<close> of \<open>insert\<close> and
  \<open>delete\<close>: the first position holding the key.
\<close>

fun find_key :: "string \<Rightarrow> 'v bucket \<Rightarrow> nat option" where
  "find_key key [] = None"
| "find_key key ((k, _) # rest) =
     (if k = key then Some 0 else map_option Suc (find_key key rest))"

text \<open>\<open>items\<close>: all entries, bucket by bucket.\<close>

definition items :: "'v table \<Rightarrow> 'v entry list" where
  "items t = concat (buckets t)"

text \<open>
  \<open>insert\<close> and \<open>_resize\<close>, with the loop of \<open>_resize\<close> as \<open>reinsert\<close>. The first
  argument is the fuel: the number of nested resizes still allowed. An insertion
  that triggers no resize needs none; \<open>_resize\<close> consumes one unit for its loop of
  reinsertions.
\<close>

fun insert_tbl :: "nat \<Rightarrow> hash \<Rightarrow> 'v table \<Rightarrow> string \<Rightarrow> 'v pyval \<Rightarrow> bool
                    \<Rightarrow> error + ('v table \<times> bool)"
and resize :: "nat \<Rightarrow> hash \<Rightarrow> 'v table \<Rightarrow> int \<Rightarrow> error + 'v table"
and reinsert :: "nat \<Rightarrow> hash \<Rightarrow> 'v table \<Rightarrow> 'v entry list \<Rightarrow> error + 'v table"
where
  "insert_tbl n h t key val allow_update =
     (case index h t key of Inl e \<Rightarrow> Inl e | Inr idx \<Rightarrow>
      case py_pos (buckets t) idx of Inl e \<Rightarrow> Inl e | Inr p \<Rightarrow>
        let bucket = buckets t ! p in
        case find_key key bucket of
          Some i \<Rightarrow>
            if allow_update
            then Inr (t\<lparr>buckets := (buckets t)[p := bucket[i := (key, val)]]\<rparr>, True)
            else Inr (t, False)
        | None \<Rightarrow>
            let t' = t\<lparr>buckets := (buckets t)[p := bucket @ [(key, val)]],
                       size_tbl := size_tbl t + 1\<rparr> in
            case should_resize t' of Inl e \<Rightarrow> Inl e | Inr grow \<Rightarrow>
              if grow
              then (case resize n h t' (capacity t' * 2 + 1) of
                      Inl e \<Rightarrow> Inl e | Inr t'' \<Rightarrow> Inr (t'', True))
              else Inr (t', True))"
| "resize 0 h t new_capacity = Inl OutOfFuel"
| "resize (Suc n) h t new_capacity =
     (let old_items = concat (buckets t) in
      reinsert n h
        \<lparr> capacity = max 5 new_capacity,
          buckets = replicate (nat (max 5 new_capacity)) [],
          size_tbl = 0 \<rparr>
        old_items)"
| "reinsert n h t [] = Inr t"
| "reinsert n h t ((k, v) # rest) =
     (case insert_tbl n h t k v True of
        Inl e \<Rightarrow> Inl e
      | Inr (t', _) \<Rightarrow> reinsert n h t' rest)"

text \<open>\<open>get\<close>: the scan \<open>for (k, v) in bucket: if k == key: return v\<close>, then \<open>None\<close>.\<close>

fun get_scan :: "string \<Rightarrow> 'v bucket \<Rightarrow> 'v pyval" where
  "get_scan key [] = PyNone"
| "get_scan key ((k, v) # rest) = (if k = key then v else get_scan key rest)"

definition get :: "hash \<Rightarrow> 'v table \<Rightarrow> string \<Rightarrow> error + 'v pyval" where
  "get h t key =
     (case index h t key of Inl e \<Rightarrow> Inl e | Inr idx \<Rightarrow>
      case py_pos (buckets t) idx of Inl e \<Rightarrow> Inl e | Inr p \<Rightarrow>
        Inr (get_scan key (buckets t ! p)))"

text \<open>\<open>delete\<close>: \<open>bucket.pop(i)\<close> at the first position holding the key.\<close>

definition delete :: "hash \<Rightarrow> 'v table \<Rightarrow> string \<Rightarrow> error + ('v table \<times> bool)" where
  "delete h t key =
     (case index h t key of Inl e \<Rightarrow> Inl e | Inr idx \<Rightarrow>
      case py_pos (buckets t) idx of Inl e \<Rightarrow> Inl e | Inr p \<Rightarrow>
        let bucket = buckets t ! p in
        case find_key key bucket of
          Some i \<Rightarrow>
            Inr (t\<lparr>buckets := (buckets t)[p := take i bucket @ drop (Suc i) bucket],
                   size_tbl := size_tbl t - 1\<rparr>, True)
        | None \<Rightarrow> Inr (t, False))"

text \<open>\<open>contains\<close>: \<open>self.get(key) is not None\<close>.\<close>

definition contains :: "hash \<Rightarrow> 'v table \<Rightarrow> string \<Rightarrow> error + bool" where
  "contains h t key =
     (case get h t key of Inl e \<Rightarrow> Inl e | Inr v \<Rightarrow> Inr (v \<noteq> PyNone))"

text \<open>\<open>__len__\<close>\<close>

definition len :: "'v table \<Rightarrow> int" where
  "len t = size_tbl t"

section \<open>factorial\<close>

text \<open>
  The loop \<open>for i in range(2, n + 1): result *= i\<close> runs over the integers
  \<open>2, \<dots>, n\<close>; Python's integers are unbounded, as \<open>int\<close> is.
\<close>

definition factorial :: "int \<Rightarrow> error + int" where
  "factorial n =
     (if n < 0 then Inl ValueError
      else Inr (fold (\<lambda>i result. result * i) [2..n] 1))"

section \<open>InventorySystem: the lookup passes of the benchmark\<close>

text \<open>
  The dataclass \<open>Product\<close>. The price is a Python float that is only stored and
  compared for identity of the record, never computed with; it is a real number here.
\<close>

record Product =
  sku :: string
  name :: string
  category :: string
  price :: real
  stock :: int

text \<open>The fields \<open>table\<close> and \<open>array\<close> of \<open>InventorySystem\<close>.\<close>

record InventorySystem =
  table :: "Product table"
  array :: "Product list"

text \<open>
  \<open>linear_search\<close> of \<open>benchmark_search\<close>:
  \<open>for p in self.array: if p.sku == sku: return p\<close>, then \<open>None\<close>.
\<close>

fun linear_search :: "Product list \<Rightarrow> string \<Rightarrow> Product pyval" where
  "linear_search [] s = PyNone"
| "linear_search (p # ps) s = (if sku p = s then PyObj p else linear_search ps s)"

text \<open>
  The two timed loops of \<open>benchmark_search\<close> over the same list \<open>queries\<close>:
  \<open>for q in queries: _ = self.table.get(q)\<close> and
  \<open>for q in queries: _ = linear_search(q)\<close>. The source discards each lookup's
  result; the model collects them, and returns the inventory as the loop leaves it.
  Neither \<open>get\<close> nor \<open>linear_search\<close> assigns to a field or a list, so each step
  passes the inventory on as it is.
\<close>

fun hash_pass :: "hash \<Rightarrow> InventorySystem \<Rightarrow> string list
                   \<Rightarrow> error + (Product pyval list \<times> InventorySystem)" where
  "hash_pass h s [] = Inr ([], s)"
| "hash_pass h s (q # qs) =
     (case get h (table s) q of
        Inl e \<Rightarrow> Inl e
      | Inr r \<Rightarrow>
          (case hash_pass h s qs of
             Inl e \<Rightarrow> Inl e
           | Inr (rs, s') \<Rightarrow> Inr (r # rs, s')))"

fun array_pass :: "InventorySystem \<Rightarrow> string list \<Rightarrow> Product pyval list \<times> InventorySystem" where
  "array_pass s [] = ([], s)"
| "array_pass s (q # qs) =
     (let r = linear_search (array s) q; (rs, s') = array_pass s qs in (r # rs, s'))"

section \<open>Invariants and reachable tables\<close>

text \<open>
  The bucket position of a key, the set of keys stored, the representation invariant of
  the table and the load bound \<open>size / capacity \<le> 0.75\<close> written on integers.
\<close>

definition slot :: "hash \<Rightarrow> 'v table \<Rightarrow> string \<Rightarrow> nat" where
  "slot h t key = nat (h key mod capacity t)"

definition keys_of :: "'v table \<Rightarrow> string set" where
  "keys_of t = fst ` set (items t)"

definition table_inv :: "hash \<Rightarrow> 'v table \<Rightarrow> bool" where
  "table_inv h t \<longleftrightarrow>
     5 \<le> capacity t
     \<and> length (buckets t) = nat (capacity t)
     \<and> size_tbl t = int (length (items t))
     \<and> (\<forall>p < length (buckets t).
          distinct (map fst (buckets t ! p))
          \<and> (\<forall>e \<in> set (buckets t ! p). slot h t (fst e) = p))"

definition load_ok :: "'v table \<Rightarrow> bool" where
  "load_ok t \<longleftrightarrow> 4 * size_tbl t \<le> 3 * capacity t"

text \<open>The table after the append of \<open>insert\<close>, before the resize check.\<close>

definition appended :: "hash \<Rightarrow> 'v table \<Rightarrow> string \<Rightarrow> 'v pyval \<Rightarrow> 'v table" where
  "appended h t key val =
     t\<lparr>buckets := (buckets t)[slot h t key := buckets t ! slot h t key @ [(key, val)]],
       size_tbl := size_tbl t + 1\<rparr>"

text \<open>
  Reachable tables. \<open>reaches h ks t\<close>: the table \<open>t\<close> results from a freshly constructed
  table by a finite sequence of \<open>insert\<close> and \<open>delete\<close> calls, and \<open>ks\<close> is the set of
  keys inserted and not deleted since: every \<open>insert\<close> call that returns adds its key
  (a rejected duplicate is a key inserted before), every \<open>delete\<close> call removes it.
\<close>

inductive reaches :: "hash \<Rightarrow> string set \<Rightarrow> 'v table \<Rightarrow> bool" for h :: hash where
  fresh: "reaches h {} (init cap)"
| ins: "reaches h ks t \<Longrightarrow> insert_tbl n h t key val allow = Inr (t', ok)
        \<Longrightarrow> reaches h (insert key ks) t'"
| del: "reaches h ks t \<Longrightarrow> delete h t key = Inr (t', ok)
        \<Longrightarrow> reaches h (ks - {key}) t'"

definition reachable :: "hash \<Rightarrow> 'v table \<Rightarrow> bool" where
  "reachable h t \<longleftrightarrow> (\<exists>ks. reaches h ks t)"

text \<open>
  The table and the array mirror each other: the SKUs of the array are unique and the
  table's entries are exactly the array's products, each under its SKU.
\<close>

definition mirrored :: "InventorySystem \<Rightarrow> bool" where
  "mirrored s \<longleftrightarrow>
     distinct (map sku (array s))
     \<and> set (items (table s)) = (\<lambda>p. (sku p, PyObj p)) ` set (array s)"

section \<open>Concrete runs\<close>

text \<open>
  A concrete hash function and the tables of one run from \<open>HashTableSeparateChaining(5)\<close>:
  three inserts into bucket 1, then a fourth insert that resizes to capacity 11.
\<close>

definition h0 :: hash where "h0 s = int (length s)"

definition ex_t1 :: "nat table" where
  "ex_t1 = \<lparr>capacity = 5, buckets = [[], [(''a'', PyObj 1)], [], [], []], size_tbl = 1\<rparr>"

definition ex_t2 :: "nat table" where
  "ex_t2 = \<lparr>capacity = 5, buckets = [[], [(''a'', PyObj 1), (''b'', PyObj 2)], [], [], []],
            size_tbl = 2\<rparr>"

definition ex_t3 :: "nat table" where
  "ex_t3 = \<lparr>capacity = 5,
            buckets = [[], [(''a'', PyObj 1), (''b'', PyObj 2), (''c'', PyNone)], [], [], []],
            size_tbl = 3\<rparr>"

definition ex_t4 :: "nat table" where
  "ex_t4 = \<lparr>capacity = 11,
            buckets = [[], [(''a'', PyObj 1), (''b'', PyObj 2), (''c'', PyNone)],
                       [(''dd'', PyObj 4)], [], [], [], [], [], [], [], []],
            size_tbl = 4\<rparr>"

definition ex_product :: Product where
  "ex_product = \<lparr>sku = ''a'', name = ''Wipes'', category = ''Hygiene'', price = 9.5, stock = 300\<rparr>"

definition ex_inventory :: InventorySystem where
  "ex_inventory =
     \<lparr>table = \<lparr>capacity = 5, buckets = [[], [(''a'', PyObj ex_product)], [], [], []],
               size_tbl = 1\<rparr>,
      array = [ex_product]\<rparr>"

definition ex_t0 :: "nat table" where
  "ex_t0 = \<lparr>capacity = 5, buckets = [[], [], [], [], []], size_tbl = 0\<rparr>"

section \<open>Properties of factorial\<close>

lemma factorial_loop:
  "fold (\<lambda>i result. result * i) [2..int m] (1::int) = fact m"
proof (induction m)
  case 0
  show ?case by simp
next
  case (Suc m)
  show ?case
  proof (cases "m = 0")
    case True
    then show ?thesis by simp
  next
    case False
    then have "[2..int (Suc m)] = [2..int m] @ [int (Suc m)]"
      using upto_rec2 [of 2 "int (Suc m)"] by simp
    then show ?thesis
      using Suc.IH by (simp add: algebra_simps)
  qed
qed

text \<open>
  Claim C10. \<open>factorial n\<close> raises \<open>ValueError\<close> exactly when \<open>n < 0\<close>, it raises
  nothing else, and for every \<open>n \<ge> 0\<close> it returns the mathematical factorial of
  \<open>n\<close> as an exact integer; in particular \<open>factorial 0 = 1\<close> and \<open>factorial 1 = 1\<close>.
\<close>

theorem factorial_correct:
  "(factorial n = Inl ValueError \<longleftrightarrow> n < 0)
   \<and> (\<forall>e. factorial n = Inl e \<longrightarrow> e = ValueError)
   \<and> (0 \<le> n \<longrightarrow> factorial n = Inr (fact (nat n)))
   \<and> factorial 0 = Inr 1 \<and> factorial 1 = Inr 1"
proof -
  have "0 \<le> n \<Longrightarrow> factorial n = Inr (fact (nat n))"
    using factorial_loop [of "nat n"] by (simp add: factorial_def)
  moreover have "factorial 0 = Inr 1" "factorial 1 = Inr 1"
    by (simp_all add: factorial_def)
  ultimately show ?thesis
    by (auto simp: factorial_def)
qed

theorem factorial_correct_witness:
  "(factorial 5 = Inl ValueError \<longleftrightarrow> (5::int) < 0)
   \<and> factorial 5 = Inr 120
   \<and> factorial (- 3) = Inl ValueError"
proof -
  have "fact (nat 5) = (120::int)"
    by (simp add: fact_numeral)
  then show ?thesis
    using factorial_correct [of 5] factorial_correct [of "- 3"] by simp
qed

section \<open>Properties of the hash table\<close>

lemma should_resize_iff:
  "0 < capacity t \<Longrightarrow> should_resize t = Inr (3 * capacity t < 4 * size_tbl t)"
proof -
  assume c: "0 < capacity t"
  have "(3 * real_of_int (capacity t) < 4 * real_of_int (size_tbl t))
        = (3 * capacity t < 4 * size_tbl t)"
    by (metis of_int_less_iff of_int_mult of_int_numeral)
  with c show ?thesis
    by (simp add: should_resize_def load_factor_def field_simps)
qed

lemma slot_less: "0 < capacity t \<Longrightarrow> length (buckets t) = nat (capacity t) \<Longrightarrow> slot h t key < length (buckets t)"
  by (simp add: slot_def nat_less_iff)

lemma index_slot:
  "0 < capacity t \<Longrightarrow> index h t key = Inr (int (slot h t key))"
  by (simp add: index_def slot_def)

lemma py_pos_nat: "p < length xs \<Longrightarrow> py_pos xs (int p) = Inr p"
  by (simp add: py_pos_def)

lemma find_key_None: "find_key key b = None \<longleftrightarrow> key \<notin> fst ` set b"
  by (induction b) (auto simp: rev_image_eqI split: if_splits)

lemma find_key_Some:
  "find_key key b = Some i \<Longrightarrow> i < length b \<and> fst (b ! i) = key"
  by (induction b arbitrary: i) (auto split: if_splits)

lemma get_scan_absent: "key \<notin> fst ` set b \<Longrightarrow> get_scan key b = PyNone"
  by (induction b) auto

lemma get_scan_present:
  "distinct (map fst b) \<Longrightarrow> (key, v) \<in> set b \<Longrightarrow> get_scan key b = v"
  by (induction b) (auto simp: rev_image_eqI)

lemma in_items_iff:
  "e \<in> set (items t) \<longleftrightarrow> (\<exists>p < length (buckets t). e \<in> set (buckets t ! p))"
  by (simp add: items_def) (metis in_set_conv_nth)

lemma length_items: "length (items t) = sum_list (map length (buckets t))"
  by (simp add: items_def length_concat)

lemma slot_capacity_cong [simp]:
  "slot h (t\<lparr>buckets := bs, size_tbl := s\<rparr>) = slot h t"
  "slot h (t\<lparr>buckets := bs\<rparr>) = slot h t"
  by (simp_all add: slot_def fun_eq_iff)

lemma bucket_eq_items:
  assumes "table_inv h t" "p < length (buckets t)"
  shows "set (buckets t ! p) = {e \<in> set (items t). slot h t (fst e) = p}"
  using assms unfolding table_inv_def in_items_iff by (auto 0 3)

lemma length_items_update:
  assumes "p < length bs"
  shows "int (length (concat (bs[p := b']))) =
         int (length (concat bs)) + int (length b') - int (length (bs ! p))"
proof -
  have "length (bs ! p) \<le> sum_list (map length bs)"
    using assms elem_le_sum_list [of p "map length bs"] by simp
  moreover have "sum_list (map length (bs[p := b'])) =
        sum_list (map length bs) + length b' - length (bs ! p)"
    using assms by (simp add: map_update sum_list_update)
  ultimately show ?thesis
    by (simp add: length_concat)
qed

lemma bucket_update_inv:
  assumes inv: "table_inv h t" and p: "p < length (buckets t)"
    and d: "distinct (map fst b')"
    and sl: "\<forall>e \<in> set b'. slot h t (fst e) = p"
    and sz: "s = size_tbl t + int (length b') - int (length (buckets t ! p))"
  shows "table_inv h (t\<lparr>buckets := (buckets t)[p := b'], size_tbl := s\<rparr>)"
proof -
  let ?t = "t\<lparr>buckets := (buckets t)[p := b'], size_tbl := s\<rparr>"
  have "size_tbl ?t = int (length (items ?t))"
    using inv p sz length_items_update [of p "buckets t" b']
    by (simp add: table_inv_def items_def)
  moreover have "\<forall>q < length (buckets ?t).
          distinct (map fst (buckets ?t ! q))
          \<and> (\<forall>e \<in> set (buckets ?t ! q). slot h ?t (fst e) = q)"
    using inv p d sl by (simp add: table_inv_def nth_list_update)
  ultimately show ?thesis
    using inv by (simp add: table_inv_def)
qed

lemma bucket_update_items:
  assumes inv: "table_inv h t" and p: "p < length (buckets t)"
  shows "set (items (t\<lparr>buckets := (buckets t)[p := b'], size_tbl := s\<rparr>)) =
         {e \<in> set (items t). slot h t (fst e) \<noteq> p} \<union> set b'"
    (is "set (items ?t) = ?R")
proof (rule set_eqI)
  fix e
  have other: "\<And>q. q < length (buckets t) \<Longrightarrow> e \<in> set (buckets t ! q)
                 \<Longrightarrow> slot h t (fst e) = q"
    using inv by (simp add: table_inv_def)
  show "e \<in> set (items ?t) \<longleftrightarrow> e \<in> ?R"
  proof
    assume "e \<in> set (items ?t)"
    then obtain q where q: "q < length (buckets t)"
      and e: "e \<in> set ((buckets t)[p := b'] ! q)"
      by (auto simp: in_items_iff)
    show "e \<in> ?R"
    proof (cases "q = p")
      case True
      with e p show ?thesis by simp
    next
      case False
      with e have "e \<in> set (buckets t ! q)" by simp
      with q False other [of q] show ?thesis
        by (auto simp: in_items_iff)
    qed
  next
    assume "e \<in> ?R"
    then consider "e \<in> set b'"
      | "e \<in> set (items t)" "slot h t (fst e) \<noteq> p" by blast
    then show "e \<in> set (items ?t)"
    proof cases
      case 1
      with p have "p < length (buckets ?t) \<and> e \<in> set (buckets ?t ! p)" by simp
      then show ?thesis unfolding in_items_iff by blast
    next
      case 2
      then obtain q where q: "q < length (buckets t)" "e \<in> set (buckets t ! q)"
        by (auto simp: in_items_iff)
      with other [of q] 2 have "q \<noteq> p" by auto
      with q have "q < length (buckets ?t) \<and> e \<in> set (buckets ?t ! q)" by simp
      then show ?thesis unfolding in_items_iff by blast
    qed
  qed
qed

lemma find_key_update:
  "find_key key b = Some i \<Longrightarrow> distinct (map fst b) \<Longrightarrow>
     map fst (b[i := (key, val)]) = map fst b
     \<and> set (b[i := (key, val)]) = {e \<in> set b. fst e \<noteq> key} \<union> {(key, val)}"
proof (induction b arbitrary: i)
  case Nil
  then show ?case by simp
next
  case (Cons x b)
  obtain k v where x: "x = (k, v)" by (cases x)
  show ?case
  proof (cases "k = key")
    case True
    with Cons.prems x have "i = 0" "key \<notin> fst ` set b" by auto
    with True x show ?thesis by (auto simp: rev_image_eqI)
  next
    case False
    with Cons.prems x obtain j where j: "find_key key b = Some j" "i = Suc j"
      by auto
    with Cons.IH [of j] Cons.prems False x show ?thesis by auto
  qed
qed

lemma find_key_pop:
  "find_key key b = Some i \<Longrightarrow> distinct (map fst b) \<Longrightarrow>
     set (take i b @ drop (Suc i) b) = {e \<in> set b. fst e \<noteq> key}
     \<and> distinct (map fst (take i b @ drop (Suc i) b))
     \<and> Suc (length (take i b @ drop (Suc i) b)) = length b"
proof (induction b arbitrary: i)
  case Nil
  then show ?case by simp
next
  case (Cons x b)
  obtain k v where x: "x = (k, v)" by (cases x)
  show ?case
  proof (cases "k = key")
    case True
    with Cons.prems x have "i = 0" "key \<notin> fst ` set b" by auto
    with True x Cons.prems show ?thesis by (auto simp: rev_image_eqI)
  next
    case False
    with Cons.prems x obtain j where j: "find_key key b = Some j" "i = Suc j"
      by auto
    have "set (take j b @ drop (Suc j) b) \<subseteq> set b"
      using set_take_subset [of j b] set_drop_subset [of "Suc j" b] by auto
    with Cons.IH [of j] Cons.prems False x j show ?thesis by auto
  qed
qed

lemma inv_capacity_pos: "table_inv h t \<Longrightarrow> 0 < capacity t"
  by (simp add: table_inv_def)

lemma inv_slot_less: "table_inv h t \<Longrightarrow> slot h t key < length (buckets t)"
  using slot_less [of t h key] by (simp add: table_inv_def)

lemma key_in_bucket_iff:
  assumes "table_inv h t"
  shows "key \<in> fst ` set (buckets t ! slot h t key) \<longleftrightarrow> key \<in> keys_of t"
proof -
  have "slot h t key < length (buckets t)"
    using assms by (rule inv_slot_less)
  from bucket_eq_items [OF assms this] show ?thesis
    by (auto simp: keys_of_def rev_image_eqI)
qed

lemma insert_tbl_unfold:
  assumes "table_inv h t"
  shows "insert_tbl n h t key val allow_update =
     (let p = slot h t key; bucket = buckets t ! p in
        case find_key key bucket of
          Some i \<Rightarrow>
            if allow_update
            then Inr (t\<lparr>buckets := (buckets t)[p := bucket[i := (key, val)]]\<rparr>, True)
            else Inr (t, False)
        | None \<Rightarrow>
            let t' = t\<lparr>buckets := (buckets t)[p := bucket @ [(key, val)]],
                       size_tbl := size_tbl t + 1\<rparr> in
              if 3 * capacity t < 4 * (size_tbl t + 1)
              then (case resize n h t' (capacity t * 2 + 1) of
                      Inl e \<Rightarrow> Inl e | Inr t'' \<Rightarrow> Inr (t'', True))
              else Inr (t', True))"
proof -
  have c: "0 < capacity t" and l: "slot h t key < length (buckets t)"
    using assms by (simp_all add: inv_capacity_pos inv_slot_less)
  show ?thesis
    using c by (simp add: index_slot [OF c] py_pos_nat [OF l] should_resize_iff Let_def
          split: option.split)
qed

declare insert_tbl.simps [simp del]

lemma insert_present_update:
  assumes inv: "table_inv h t" and k: "key \<in> keys_of t"
  shows "\<exists>t'. insert_tbl n h t key val True = Inr (t', True)
           \<and> table_inv h t' \<and> capacity t' = capacity t \<and> size_tbl t' = size_tbl t
           \<and> set (items t') = {e \<in> set (items t). fst e \<noteq> key} \<union> {(key, val)}"
proof -
  let ?p = "slot h t key"
  let ?b = "buckets t ! ?p"
  have p: "?p < length (buckets t)" using inv by (rule inv_slot_less)
  have d: "distinct (map fst ?b)" and sl: "\<forall>e \<in> set ?b. slot h t (fst e) = ?p"
    using inv p by (simp_all add: table_inv_def)
  from k obtain i where i: "find_key key ?b = Some i"
    using key_in_bucket_iff [OF inv, of key] find_key_None [of key ?b] by auto
  let ?b' = "?b[i := (key, val)]"
  let ?t' = "t\<lparr>buckets := (buckets t)[?p := ?b'], size_tbl := size_tbl t\<rparr>"
  from find_key_update [OF i d, of val]
  have m: "map fst ?b' = map fst ?b"
    and s: "set ?b' = {e \<in> set ?b. fst e \<noteq> key} \<union> {(key, val)}" by simp_all
  have d': "distinct (map fst ?b')" using m d by simp
  have sl': "\<forall>e \<in> set ?b'. slot h t (fst e) = ?p" using s sl by auto
  have inv': "table_inv h ?t'"
    using bucket_update_inv [OF inv p d' sl'] by simp
  have "set (items ?t') = {e \<in> set (items t). slot h t (fst e) \<noteq> ?p} \<union> set ?b'"
    by (rule bucket_update_items [OF inv p])
  also have "\<dots> = {e \<in> set (items t). fst e \<noteq> key} \<union> {(key, val)}"
    unfolding s bucket_eq_items [OF inv p] by auto
  finally have it: "set (items ?t') = {e \<in> set (items t). fst e \<noteq> key} \<union> {(key, val)}" .
  have "insert_tbl n h t key val True = Inr (?t', True)"
    by (simp add: insert_tbl_unfold [OF inv] i Let_def)
  with inv' it show ?thesis by simp
qed

lemma insert_present_reject:
  assumes inv: "table_inv h t" and k: "key \<in> keys_of t"
  shows "insert_tbl n h t key val False = Inr (t, False)"
proof -
  from k obtain i where "find_key key (buckets t ! slot h t key) = Some i"
    using key_in_bucket_iff [OF inv, of key]
      find_key_None [of key "buckets t ! slot h t key"] by auto
  then show ?thesis
    by (simp add: insert_tbl_unfold [OF inv] Let_def)
qed

lemma appended_props:
  assumes inv: "table_inv h t" and k: "key \<notin> keys_of t"
  shows "table_inv h (appended h t key val)"
    and "capacity (appended h t key val) = capacity t"
    and "size_tbl (appended h t key val) = size_tbl t + 1"
    and "set (items (appended h t key val)) = insert (key, val) (set (items t))"
proof -
  let ?p = "slot h t key"
  let ?b = "buckets t ! ?p"
  let ?b' = "?b @ [(key, val)]"
  have p: "?p < length (buckets t)" using inv by (rule inv_slot_less)
  have d: "distinct (map fst ?b)" and sl: "\<forall>e \<in> set ?b. slot h t (fst e) = ?p"
    using inv p by (simp_all add: table_inv_def)
  have nk: "key \<notin> fst ` set ?b"
    using k key_in_bucket_iff [OF inv, of key] by simp
  have d': "distinct (map fst ?b')" using d nk by simp
  have sl': "\<forall>e \<in> set ?b'. slot h t (fst e) = ?p" using sl by auto
  show "table_inv h (appended h t key val)"
    unfolding appended_def by (rule bucket_update_inv [OF inv p d' sl']) simp
  show "capacity (appended h t key val) = capacity t"
    and "size_tbl (appended h t key val) = size_tbl t + 1"
    by (simp_all add: appended_def)
  have "set (items (appended h t key val)) =
        {e \<in> set (items t). slot h t (fst e) \<noteq> ?p} \<union> set ?b'"
    unfolding appended_def by (rule bucket_update_items [OF inv p])
  also have "\<dots> = insert (key, val) (set (items t))"
    using bucket_eq_items [OF inv p] by auto
  finally show "set (items (appended h t key val)) = insert (key, val) (set (items t))" .
qed

lemma insert_absent_unfold:
  assumes inv: "table_inv h t" and k: "key \<notin> keys_of t"
  shows "insert_tbl n h t key val allow =
           (if 3 * capacity t < 4 * (size_tbl t + 1)
            then (case resize n h (appended h t key val) (capacity t * 2 + 1) of
                    Inl e \<Rightarrow> Inl e | Inr t'' \<Rightarrow> Inr (t'', True))
            else Inr (appended h t key val, True))"
proof -
  have "find_key key (buckets t ! slot h t key) = None"
    using k key_in_bucket_iff [OF inv, of key]
      find_key_None [of key "buckets t ! slot h t key"] by simp
  then show ?thesis
    by (simp add: insert_tbl_unfold [OF inv] Let_def appended_def)
qed

lemma keys_of_appended:
  assumes "table_inv h t" "key \<notin> keys_of t"
  shows "keys_of (appended h t key val) = insert key (keys_of t)"
  using appended_props(4) [OF assms, of val] by (simp add: keys_of_def)

lemma reinsert_plain:
  "table_inv h t \<Longrightarrow> distinct (map fst kvs) \<Longrightarrow> fst ` set kvs \<inter> keys_of t = {}
   \<Longrightarrow> 4 * (size_tbl t + int (length kvs)) \<le> 3 * capacity t
   \<Longrightarrow> \<exists>t'. reinsert n h t kvs = Inr t' \<and> table_inv h t' \<and> capacity t' = capacity t
            \<and> size_tbl t' = size_tbl t + int (length kvs)
            \<and> set (items t') = set (items t) \<union> set kvs"
proof (induction kvs arbitrary: t)
  case Nil
  then show ?case by simp
next
  case (Cons x kvs)
  obtain k v where x: "x = (k, v)" by (cases x)
  let ?a = "appended h t k v"
  have k: "k \<notin> keys_of t" using Cons.prems(3) x by auto
  have ins: "insert_tbl n h t k v True = Inr (?a, True)"
    using Cons.prems(4) by (simp add: insert_absent_unfold [OF Cons.prems(1) k])
  note ap = appended_props [OF Cons.prems(1) k, of v]
  have "fst ` set kvs \<inter> keys_of ?a = {}"
    using Cons.prems(2,3) x keys_of_appended [OF Cons.prems(1) k, of v] by auto
  moreover have "4 * (size_tbl ?a + int (length kvs)) \<le> 3 * capacity ?a"
    using Cons.prems(4) ap(2,3) by simp
  moreover have "distinct (map fst kvs)" using Cons.prems(2) by simp
  ultimately obtain t' where t': "reinsert n h ?a kvs = Inr t'" "table_inv h t'"
    "capacity t' = capacity ?a" "size_tbl t' = size_tbl ?a + int (length kvs)"
    "set (items t') = set (items ?a) \<union> set kvs"
    using Cons.IH [OF ap(1)] by blast
  have "reinsert n h t (x # kvs) = Inr t'"
    using ins t'(1) x by simp
  moreover have "set (items t') = set (items t) \<union> set (x # kvs)"
    using t'(5) ap(4) x by auto
  ultimately show ?case
    using t'(2,3,4) ap(2,3) by auto
qed

lemma fresh_inv:
  "5 \<le> c \<Longrightarrow> table_inv h \<lparr>capacity = c, buckets = replicate (nat c) [], size_tbl = 0\<rparr>"
  by (simp add: table_inv_def items_def)

lemma fresh_items:
  "items \<lparr>capacity = c, buckets = replicate (nat c) [], size_tbl = 0\<rparr> = []"
  by (simp add: items_def)

lemma resize_ok:
  assumes d: "distinct (map fst (items t))" and sz: "size_tbl t = int (length (items t))"
    and ld: "4 * size_tbl t \<le> 3 * max 5 nc"
  shows "\<exists>t'. resize (Suc n) h t nc = Inr t' \<and> table_inv h t' \<and> capacity t' = max 5 nc
            \<and> size_tbl t' = size_tbl t \<and> set (items t') = set (items t)"
proof -
  let ?f = "\<lparr>capacity = max 5 nc, buckets = replicate (nat (max 5 nc)) [], size_tbl = 0\<rparr>
              :: 'a table"
  have inv: "table_inv h ?f" by (rule fresh_inv) simp
  have "fst ` set (items t) \<inter> keys_of ?f = {}"
    by (simp add: keys_of_def fresh_items)
  moreover have "4 * (size_tbl ?f + int (length (items t))) \<le> 3 * capacity ?f"
    using ld sz by simp
  ultimately obtain t' where "reinsert n h ?f (items t) = Inr t'" "table_inv h t'"
    "capacity t' = capacity ?f" "size_tbl t' = size_tbl ?f + int (length (items t))"
    "set (items t') = set (items ?f) \<union> set (items t)"
    using reinsert_plain [OF inv d, of n] by blast
  then show ?thesis
    using sz by (simp add: items_def Let_def)
qed

lemma distinct_buckets:
  "(\<forall>p < length bs. distinct (map fst (bs ! p)) \<and> (\<forall>e \<in> set (bs ! p). g (fst e) = p))
   \<Longrightarrow> distinct (map fst (concat bs))"
proof (induction bs rule: rev_induct)
  case Nil
  show ?case by simp
next
  case (snoc b bs)
  have pre: "\<forall>p < length bs. distinct (map fst (bs ! p)) \<and> (\<forall>e \<in> set (bs ! p). g (fst e) = p)"
  proof (intro allI impI)
    fix p assume p: "p < length bs"
    then have "(bs @ [b]) ! p = bs ! p" by (simp add: nth_append)
    with snoc.prems p show "distinct (map fst (bs ! p)) \<and> (\<forall>e \<in> set (bs ! p). g (fst e) = p)"
      by (metis length_append_singleton less_Suc_eq)
  qed
  have last: "distinct (map fst b) \<and> (\<forall>e \<in> set b. g (fst e) = length bs)"
    using snoc.prems by (metis length_append_singleton lessI nth_append_length)
  have "g (fst e) < length bs" if "e \<in> set (concat bs)" for e
  proof -
    from that obtain b' where "b' \<in> set bs" "e \<in> set b'" by auto
    then obtain p where "p < length bs" "e \<in> set (bs ! p)"
      by (metis in_set_conv_nth)
    with pre show ?thesis by auto
  qed
  then have "fst ` set (concat bs) \<inter> fst ` set b = {}"
    using last by fastforce
  with snoc.IH [OF pre] last show ?case by simp
qed

lemma inv_distinct: "table_inv h t \<Longrightarrow> distinct (map fst (items t))"
  unfolding items_def by (rule distinct_buckets [where g = "slot h t"]) (simp add: table_inv_def)

lemma insert_absent_grow:
  assumes inv: "table_inv h t" and k: "key \<notin> keys_of t" and ld: "load_ok t"
    and g: "3 * capacity t < 4 * (size_tbl t + 1)"
  shows "\<exists>t'. insert_tbl (Suc n) h t key val allow = Inr (t', True)
           \<and> table_inv h t' \<and> capacity t' = capacity t * 2 + 1
           \<and> size_tbl t' = size_tbl t + 1
           \<and> set (items t') = insert (key, val) (set (items t))"
proof -
  let ?a = "appended h t key val"
  note ap = appended_props [OF inv k, of val]
  have c: "5 \<le> capacity t" using inv by (simp add: table_inv_def)
  have "distinct (map fst (items ?a))" using ap(1) by (rule inv_distinct)
  moreover have "size_tbl ?a = int (length (items ?a))"
    using ap(1) by (simp add: table_inv_def)
  moreover have "4 * size_tbl ?a \<le> 3 * max 5 (capacity t * 2 + 1)"
    using ld c ap(3) by (simp add: load_ok_def)
  ultimately obtain t' where "resize (Suc n) h ?a (capacity t * 2 + 1) = Inr t'"
    "table_inv h t'" "capacity t' = max 5 (capacity t * 2 + 1)"
    "size_tbl t' = size_tbl ?a" "set (items t') = set (items ?a)"
    using resize_ok [of ?a "capacity t * 2 + 1" n h] by blast
  then show ?thesis
    using g c ap by (simp add: insert_absent_unfold [OF inv k])
qed

lemma get_unfold:
  assumes "table_inv h t"
  shows "get h t key = Inr (get_scan key (buckets t ! slot h t key))"
  using assms
  by (simp add: get_def index_slot [OF inv_capacity_pos] py_pos_nat [OF inv_slot_less])

lemma get_present:
  assumes inv: "table_inv h t" and e: "(key, v) \<in> set (items t)"
  shows "get h t key = Inr v"
proof -
  have p: "slot h t key < length (buckets t)" using inv by (rule inv_slot_less)
  have "(key, v) \<in> set (buckets t ! slot h t key)"
    using e bucket_eq_items [OF inv p] by simp
  moreover have "distinct (map fst (buckets t ! slot h t key))"
    using inv p by (simp add: table_inv_def)
  ultimately show ?thesis
    by (simp add: get_unfold [OF inv] get_scan_present)
qed

lemma get_absent:
  assumes inv: "table_inv h t" and k: "key \<notin> keys_of t"
  shows "get h t key = Inr PyNone"
  using k key_in_bucket_iff [OF inv, of key]
  by (simp add: get_unfold [OF inv] get_scan_absent)

lemma delete_present:
  assumes inv: "table_inv h t" and k: "key \<in> keys_of t"
  shows "\<exists>t'. delete h t key = Inr (t', True)
           \<and> table_inv h t' \<and> capacity t' = capacity t \<and> size_tbl t' = size_tbl t - 1
           \<and> set (items t') = {e \<in> set (items t). fst e \<noteq> key}"
proof -
  let ?p = "slot h t key"
  let ?b = "buckets t ! ?p"
  have c: "0 < capacity t" using inv by (rule inv_capacity_pos)
  have p: "?p < length (buckets t)" using inv by (rule inv_slot_less)
  have d: "distinct (map fst ?b)" and sl: "\<forall>e \<in> set ?b. slot h t (fst e) = ?p"
    using inv p by (simp_all add: table_inv_def)
  from k obtain i where i: "find_key key ?b = Some i"
    using key_in_bucket_iff [OF inv, of key] find_key_None [of key ?b] by auto
  let ?b' = "take i ?b @ drop (Suc i) ?b"
  let ?t' = "t\<lparr>buckets := (buckets t)[?p := ?b'], size_tbl := size_tbl t - 1\<rparr>"
  from find_key_pop [OF i d]
  have s: "set ?b' = {e \<in> set ?b. fst e \<noteq> key}"
    and d': "distinct (map fst ?b')"
    and l: "Suc (length ?b') = length ?b" by simp_all
  have sl': "\<forall>e \<in> set ?b'. slot h t (fst e) = ?p" using s sl by auto
  have "size_tbl t - 1 = size_tbl t + int (length ?b') - int (length ?b)"
    using l by linarith
  then have inv': "table_inv h ?t'"
    by (rule bucket_update_inv [OF inv p d' sl'])
  have "set (items ?t') = {e \<in> set (items t). slot h t (fst e) \<noteq> ?p} \<union> set ?b'"
    by (rule bucket_update_items [OF inv p])
  also have "\<dots> = {e \<in> set (items t). fst e \<noteq> key}"
    unfolding s bucket_eq_items [OF inv p] by auto
  finally have it: "set (items ?t') = {e \<in> set (items t). fst e \<noteq> key}" .
  have "delete h t key = Inr (?t', True)"
    by (simp add: delete_def index_slot [OF c] py_pos_nat [OF p] i Let_def)
  with inv' it show ?thesis by simp
qed

lemma delete_absent:
  assumes inv: "table_inv h t" and k: "key \<notin> keys_of t"
  shows "delete h t key = Inr (t, False)"
proof -
  have "find_key key (buckets t ! slot h t key) = None"
    using k key_in_bucket_iff [OF inv, of key]
      find_key_None [of key "buckets t ! slot h t key"] by simp
  then show ?thesis
    using inv
    by (simp add: delete_def index_slot [OF inv_capacity_pos] py_pos_nat [OF inv_slot_less])
qed

lemma insert_sound:
  assumes inv: "table_inv h t" and ld: "load_ok t"
    and r: "insert_tbl n h t key val allow = Inr (t', ok)"
  shows "table_inv h t' \<and> load_ok t'
         \<and> ok = (allow \<or> key \<notin> keys_of t)
         \<and> (\<not> ok \<longrightarrow> t' = t)
         \<and> (ok \<longrightarrow> set (items t') = {e \<in> set (items t). fst e \<noteq> key} \<union> {(key, val)})
         \<and> size_tbl t' = (if key \<in> keys_of t then size_tbl t else size_tbl t + 1)
         \<and> capacity t' = (if key \<notin> keys_of t \<and> 3 * capacity t < 4 * (size_tbl t + 1)
                          then capacity t * 2 + 1 else capacity t)"
proof (cases "key \<in> keys_of t")
  case True
  show ?thesis
  proof (cases allow)
    case True
    with insert_present_update [OF inv \<open>key \<in> keys_of t\<close>, of n val] r ld
    show ?thesis using \<open>key \<in> keys_of t\<close> by (auto simp: load_ok_def)
  next
    case False
    with insert_present_reject [OF inv \<open>key \<in> keys_of t\<close>, of n val] r inv ld
    show ?thesis using \<open>key \<in> keys_of t\<close> by auto
  qed
next
  case False
  have same: "{e \<in> set (items t). fst e \<noteq> key} = set (items t)"
    using False by (auto simp: keys_of_def rev_image_eqI)
  show ?thesis
  proof (cases "3 * capacity t < 4 * (size_tbl t + 1)")
    case plain: False
    with r have "t' = appended h t key val" "ok"
      by (simp_all add: insert_absent_unfold [OF inv False])
    with appended_props [OF inv False, of val] plain False same show ?thesis
      by (auto simp: load_ok_def)
  next
    case grow: True
    have "n \<noteq> 0"
      using r grow by (cases n) (simp_all add: insert_absent_unfold [OF inv False])
    then obtain m where "n = Suc m" by (cases n) auto
    with insert_absent_grow [OF inv False ld grow, of m val allow] r
    have "table_inv h t'" "ok" "capacity t' = capacity t * 2 + 1"
      "size_tbl t' = size_tbl t + 1" "set (items t') = insert (key, val) (set (items t))"
      by auto
    moreover have "5 \<le> capacity t" using inv by (simp add: table_inv_def)
    ultimately show ?thesis
      using grow False same ld by (auto simp: load_ok_def)
  qed
qed

lemma insert_total:
  assumes inv: "table_inv h t" and ld: "load_ok t"
  shows "\<exists>t' ok. insert_tbl (Suc n) h t key val allow = Inr (t', ok)"
proof (cases "key \<in> keys_of t")
  case True
  then show ?thesis
    using insert_present_update [OF inv True, of "Suc n" val]
      insert_present_reject [OF inv True, of "Suc n" val]
    by (cases allow) auto
next
  case False
  show ?thesis
  proof (cases "3 * capacity t < 4 * (size_tbl t + 1)")
    case True
    with insert_absent_grow [OF inv False ld True, of n val allow] show ?thesis by blast
  next
    case False
    then have "insert_tbl (Suc n) h t key val allow = Inr (appended h t key val, True)"
      by (simp add: insert_absent_unfold [OF inv \<open>key \<notin> keys_of t\<close>])
    then show ?thesis by blast
  qed
qed

lemma init_inv:
  "table_inv h (init cap :: 'v table) \<and> load_ok (init cap :: 'v table)
   \<and> keys_of (init cap :: 'v table) = {}"
  using fresh_inv [of "max 5 cap" h] fresh_items [of "max 5 cap"]
  by (simp add: init_def load_ok_def keys_of_def)

lemma reaches_inv:
  "reaches h ks t \<Longrightarrow> table_inv h t \<and> load_ok t \<and> keys_of t = ks"
proof (induction rule: reaches.induct)
  case (fresh cap)
  show ?case by (rule init_inv)
next
  case (ins ks t n key val allow t' ok)
  then have inv: "table_inv h t" and ld: "load_ok t" and ks: "keys_of t = ks" by simp_all
  note s = insert_sound [OF inv ld ins.hyps(2)]
  have "keys_of t' = insert key ks"
  proof (cases ok)
    case True
    with s have "set (items t') = {e \<in> set (items t). fst e \<noteq> key} \<union> {(key, val)}" by simp
    then have "keys_of t' = insert key (fst ` {e \<in> set (items t). fst e \<noteq> key})"
      by (simp add: keys_of_def)
    also have "\<dots> = insert key (keys_of t)"
      by (auto simp: keys_of_def rev_image_eqI)
    finally show ?thesis using ks by simp
  next
    case False
    with s ks show ?thesis by auto
  qed
  with s show ?case by simp
next
  case (del ks t key t' ok)
  then have inv: "table_inv h t" and ld: "load_ok t" and ks: "keys_of t = ks" by simp_all
  show ?case
  proof (cases "key \<in> keys_of t")
    case True
    from delete_present [OF inv True] del.hyps(2)
    have t': "table_inv h t'" "capacity t' = capacity t" "size_tbl t' = size_tbl t - 1"
      "set (items t') = {e \<in> set (items t). fst e \<noteq> key}" by auto
    have "keys_of t' = keys_of t - {key}"
      unfolding keys_of_def t'(4) by (auto simp: rev_image_eqI)
    with t' ld ks show ?thesis by (simp add: load_ok_def)
  next
    case False
    with delete_absent [OF inv False] del.hyps(2) inv ld ks show ?thesis by auto
  qed
qed

lemmas eval_simps = insert_tbl.simps init_def index_def py_pos_def should_resize_def
  load_factor_def h0_def Let_def numeral_eq_Suc get_def delete_def contains_def

lemma ex_run:
  "insert_tbl 0 h0 (init 5) ''a'' (PyObj 1) False = Inr (ex_t1, True)"
  "insert_tbl 0 h0 ex_t1 ''b'' (PyObj 2) False = Inr (ex_t2, True)"
  "insert_tbl 0 h0 ex_t2 ''c'' PyNone True = Inr (ex_t3, True)"
  "insert_tbl (Suc 0) h0 ex_t3 ''dd'' (PyObj 4) False = Inr (ex_t4, True)"
  by (simp_all add: eval_simps ex_t1_def ex_t2_def ex_t3_def ex_t4_def)

lemma ex_reaches:
  "reaches h0 {''a''} ex_t1"
  "reaches h0 {''a'', ''b'', ''c''} ex_t3"
proof -
  have 0: "reaches h0 {} (init 5 :: nat table)" by (rule reaches.fresh)
  from reaches.ins [OF 0 ex_run(1)] show 1: "reaches h0 {''a''} ex_t1" by simp
  from reaches.ins [OF 1 ex_run(2)] have 2: "reaches h0 {''b'', ''a''} ex_t2" by simp
  from reaches.ins [OF 2 ex_run(3)] show "reaches h0 {''a'', ''b'', ''c''} ex_t3"
    by (simp add: insert_commute)
qed

lemma ex_reachable: "reachable h0 (init 5 :: nat table)" "reachable h0 ex_t1" "reachable h0 ex_t3"
  unfolding reachable_def using ex_reaches reaches.fresh by blast+

lemma reachable_inv: "reachable h t \<Longrightarrow> table_inv h t \<and> load_ok t"
  unfolding reachable_def using reaches_inv by blast

lemma reachable_insert:
  "reachable h t \<Longrightarrow> insert_tbl n h t key val allow = Inr (t', ok) \<Longrightarrow> reachable h t'"
  unfolding reachable_def using reaches.ins by blast

lemma contains_unfold: "get h t key = Inr v \<Longrightarrow> contains h t key = Inr (v \<noteq> PyNone)"
  by (simp add: contains_def)

lemma insert_get:
  assumes "reachable h t" "insert_tbl n h t key val True = Inr (t', ok)"
  shows "ok \<and> get h t' key = Inr val \<and> contains h t' key = Inr (val \<noteq> PyNone)"
proof -
  from reachable_inv [OF assms(1)] have inv: "table_inv h t" and ld: "load_ok t" by simp_all
  note s = insert_sound [OF inv ld assms(2)]
  then have "ok" "table_inv h t'" "(key, val) \<in> set (items t')" by simp_all
  then show ?thesis
    using get_present [of h t' key val] contains_unfold by simp
qed

text \<open>
  Claim C1 (the code does not satisfy it). On a fresh table of capacity 5, whatever the hash
  function, \<open>insert("A", None, allow_update=True)\<close> returns success and \<open>get("A")\<close> then
  returns the stored value \<open>None\<close>, but \<open>contains("A")\<close> returns false. The key is
  present for the other operations: a further \<open>insert("A", v, allow_update=False)\<close> is
  rejected as a duplicate and \<open>delete("A")\<close> returns success.
\<close>

theorem contains_false_after_insert_None:
  "\<exists>t'. insert_tbl n h (init 5 :: 'v table) ''A'' PyNone True = Inr (t', True)
        \<and> get h t' ''A'' = Inr PyNone
        \<and> contains h t' ''A'' = Inr False
        \<and> insert_tbl m h t' ''A'' v False = Inr (t', False)
        \<and> (\<exists>t''. delete h t' ''A'' = Inr (t'', True))"
proof -
  let ?i = "init 5 :: 'v table"
  let ?a = "appended h ?i ''A'' PyNone"
  have "table_inv h ?i \<and> load_ok ?i \<and> keys_of ?i = {}" by (rule init_inv)
  then have inv: "table_inv h ?i" and k: "''A'' \<notin> keys_of ?i" by simp_all
  have i: "insert_tbl n h ?i ''A'' PyNone True = Inr (?a, True)"
    by (simp add: insert_absent_unfold [OF inv k]) (simp add: init_def)
  have r: "reachable h ?i"
    unfolding reachable_def using reaches.fresh by blast
  have inv': "table_inv h ?a" and k': "''A'' \<in> keys_of ?a"
    using appended_props(1) [OF inv k] keys_of_appended [OF inv k] by simp_all
  have "get h ?a ''A'' = Inr PyNone \<and> contains h ?a ''A'' = Inr False"
    using insert_get [OF r i] by simp
  moreover have "insert_tbl m h ?a ''A'' v False = Inr (?a, False)"
    using inv' k' by (rule insert_present_reject)
  moreover have "\<exists>t''. delete h ?a ''A'' = Inr (t'', True)"
    using delete_present [OF inv' k'] by blast
  ultimately show ?thesis
    using i by blast
qed

text \<open>
  Claim C2. On a reachable table, after \<open>insert(key, v1, allow_update=False)\<close> has
  succeeded, a second \<open>insert(key, v2, allow_update=False)\<close> returns failure and leaves
  the table as it is (size included), and \<open>get(key)\<close> still returns \<open>v1\<close>.
\<close>

theorem no_duplicate_insert:
  assumes "reachable h t" and "insert_tbl n h t key v1 False = Inr (t1, True)"
  shows "insert_tbl m h t1 key v2 False = Inr (t1, False) \<and> get h t1 key = Inr v1"
proof -
  from reachable_inv [OF assms(1)] have inv: "table_inv h t" and ld: "load_ok t" by simp_all
  note s = insert_sound [OF inv ld assms(2)]
  then have inv1: "table_inv h t1" and e: "(key, v1) \<in> set (items t1)" by simp_all
  then have "key \<in> keys_of t1" by (auto simp: keys_of_def rev_image_eqI)
  then show ?thesis
    using insert_present_reject [OF inv1] get_present [OF inv1 e] by simp
qed

theorem no_duplicate_insert_witness:
  "reachable h0 (init 5 :: nat table)
   \<and> insert_tbl 0 h0 (init 5) ''a'' (PyObj 1) False = Inr (ex_t1, True)
   \<and> insert_tbl 0 h0 ex_t1 ''a'' (PyObj 2) False = Inr (ex_t1, False)
   \<and> get h0 ex_t1 ''a'' = Inr (PyObj 1)"
  using no_duplicate_insert [OF ex_reachable(1) ex_run(1), of 0 "PyObj 2"]
    ex_reachable(1) ex_run(1) by simp

lemma over_threshold_iff:
  "0 < c \<Longrightarrow> (real_of_int s / real_of_int c > 0.75) = (3 * c < 4 * s)"
proof -
  assume c: "0 < c"
  have "(3 * real_of_int c < 4 * real_of_int s) = (3 * c < 4 * s)"
    by (metis of_int_less_iff of_int_mult of_int_numeral)
  with c show ?thesis by (simp add: field_simps)
qed

lemma insert_new_key:
  assumes r: "reaches h ks t" and k: "key \<notin> ks"
  shows "\<exists>t'. insert_tbl (Suc n) h t key val allow = Inr (t', True)
           \<and> reaches h (insert key ks) t'
           \<and> size_tbl t' = size_tbl t + 1
           \<and> capacity t' = (if 3 * capacity t < 4 * (size_tbl t + 1)
                            then capacity t * 2 + 1 else capacity t)"
proof -
  from reaches_inv [OF r] have inv: "table_inv h t" and ld: "load_ok t"
    and ks: "keys_of t = ks" by simp_all
  from insert_total [OF inv ld, of n key val allow]
  obtain t' ok where i: "insert_tbl (Suc n) h t key val allow = Inr (t', ok)" by blast
  from insert_sound [OF inv ld i] k ks reaches.ins [OF r i] i show ?thesis by auto
qed

lemma scenario_capacity_5:
  assumes d: "distinct [k1, k2, k3, k4]"
  shows "\<exists>t1 t2 t3 t4.
           insert_tbl (Suc n) h (init 5) k1 v1 a1 = Inr (t1, True) \<and> capacity t1 = 5
         \<and> insert_tbl (Suc n) h t1 k2 v2 a2 = Inr (t2, True) \<and> capacity t2 = 5
         \<and> insert_tbl (Suc n) h t2 k3 v3 a3 = Inr (t3, True) \<and> capacity t3 = 5
         \<and> insert_tbl (Suc n) h t3 k4 v4 a4 = Inr (t4, True) \<and> capacity t4 = 11"
proof -
  let ?i = "init 5 :: 'a table"
  have r0: "reaches h {} ?i" by (rule reaches.fresh)
  have c0: "capacity ?i = 5" "size_tbl ?i = 0" by (simp_all add: init_def)
  from insert_new_key [OF r0, of k1 n v1 a1] c0
  obtain t1 where t1: "insert_tbl (Suc n) h ?i k1 v1 a1 = Inr (t1, True)"
    "reaches h {k1} t1" "size_tbl t1 = 1" "capacity t1 = 5" by auto
  from insert_new_key [OF t1(2), of k2 n v2 a2] d t1(3,4)
  obtain t2 where t2: "insert_tbl (Suc n) h t1 k2 v2 a2 = Inr (t2, True)"
    "reaches h {k2, k1} t2" "size_tbl t2 = 2" "capacity t2 = 5" by auto
  from insert_new_key [OF t2(2), of k3 n v3 a3] d t2(3,4)
  obtain t3 where t3: "insert_tbl (Suc n) h t2 k3 v3 a3 = Inr (t3, True)"
    "reaches h {k3, k2, k1} t3" "size_tbl t3 = 3" "capacity t3 = 5" by auto
  from insert_new_key [OF t3(2), of k4 n v4 a4] d t3(3,4)
  obtain t4 where t4: "insert_tbl (Suc n) h t3 k4 v4 a4 = Inr (t4, True)"
    "capacity t4 = 11" by auto
  from t1 t2 t3 t4 show ?thesis by blast
qed

lemma resize_trigger:
  assumes "reachable h t" and i: "insert_tbl n h t key val allow = Inr (t', ok)"
  shows "(capacity t' \<noteq> capacity t \<longleftrightarrow>
            key \<notin> keys_of t
            \<and> real_of_int (size_tbl t + 1) / real_of_int (capacity t) > 0.75)
       \<and> (capacity t' \<noteq> capacity t \<longrightarrow> capacity t' = capacity t * 2 + 1)"
proof -
  from reachable_inv [OF assms(1)] have inv: "table_inv h t" and ld: "load_ok t" by simp_all
  have c: "0 < capacity t" using inv by (rule inv_capacity_pos)
  note s = insert_sound [OF inv ld i]
  then have "capacity t' = (if key \<notin> keys_of t \<and> 3 * capacity t < 4 * (size_tbl t + 1)
                          then capacity t * 2 + 1 else capacity t)" by simp
  with c show ?thesis
    unfolding over_threshold_iff [OF c] by auto
qed

text \<open>
  Claim C3. Every \<open>insert\<close> call on a reachable table returns, and the table is resized
  by it (its capacity changes) exactly when the key was new and the load factor right
  after the append, \<open>(size + 1) / capacity\<close>, exceeds \<open>0.75\<close>; so never after an
  update or a rejected insert. The new capacity is then \<open>capacity * 2 + 1\<close>. On a table
  constructed with capacity 5 the first three inserts of distinct keys keep capacity 5
  and the fourth gives capacity 11.
\<close>

theorem resize_policy:
  "(reachable h (t :: 'v table) \<longrightarrow>
      (\<exists>t' ok. insert_tbl (Suc n) h t key val allow = Inr (t', ok)
         \<and> (capacity t' \<noteq> capacity t \<longleftrightarrow>
              key \<notin> keys_of t
              \<and> real_of_int (size_tbl t + 1) / real_of_int (capacity t) > 0.75)
         \<and> (capacity t' \<noteq> capacity t \<longrightarrow> capacity t' = capacity t * 2 + 1)))
   \<and> (distinct [k1, k2, k3, k4] \<longrightarrow>
        (\<exists>t1 t2 t3 t4.
           insert_tbl (Suc m) h (init 5 :: 'v table) k1 v1 a1 = Inr (t1, True)
         \<and> capacity t1 = 5
         \<and> insert_tbl (Suc m) h t1 k2 v2 a2 = Inr (t2, True) \<and> capacity t2 = 5
         \<and> insert_tbl (Suc m) h t2 k3 v3 a3 = Inr (t3, True) \<and> capacity t3 = 5
         \<and> insert_tbl (Suc m) h t3 k4 v4 a4 = Inr (t4, True) \<and> capacity t4 = 11))"
proof -
  have "\<exists>t' ok. insert_tbl (Suc n) h t key val allow = Inr (t', ok)
         \<and> (capacity t' \<noteq> capacity t \<longleftrightarrow>
              key \<notin> keys_of t
              \<and> real_of_int (size_tbl t + 1) / real_of_int (capacity t) > 0.75)
         \<and> (capacity t' \<noteq> capacity t \<longrightarrow> capacity t' = capacity t * 2 + 1)"
    if r: "reachable h t"
  proof -
    from reachable_inv [OF r] have "table_inv h t" "load_ok t" by simp_all
    from insert_total [OF this, of n key val allow]
    obtain t' ok where i: "insert_tbl (Suc n) h t key val allow = Inr (t', ok)" by blast
    from resize_trigger [OF r i] i show ?thesis by blast
  qed
  then show ?thesis
    using scenario_capacity_5 [of k1 k2 k3 k4 m h v1 a1 v2 a2 v3 a3 v4 a4] by blast
qed

theorem resize_policy_witness:
  "reachable h0 ex_t3
   \<and> insert_tbl (Suc 0) h0 ex_t3 ''dd'' (PyObj 4) False = Inr (ex_t4, True)
   \<and> ''dd'' \<notin> keys_of ex_t3
   \<and> real_of_int (size_tbl ex_t3 + 1) / real_of_int (capacity ex_t3) > 0.75
   \<and> capacity ex_t3 = 5 \<and> capacity ex_t4 = 11
   \<and> distinct [''a'', ''b'', ''c'', ''dd'']
   \<and> (\<exists>t1 t2 t3 t4.
         insert_tbl (Suc 0) h0 (init 5) ''a'' (PyObj 1) False = Inr (t1, True)
       \<and> insert_tbl (Suc 0) h0 t1 ''b'' (PyObj 2) False = Inr (t2, True)
       \<and> insert_tbl (Suc 0) h0 t2 ''c'' PyNone True = Inr (t3, True)
       \<and> insert_tbl (Suc 0) h0 t3 ''dd'' (PyObj (4::nat)) False = Inr (t4, True)
       \<and> capacity t3 = 5 \<and> capacity t4 = 11)"
proof -
  have d: "distinct [''a'', ''b'', ''c'', ''dd'']" by simp
  have c: "capacity ex_t3 = 5" "capacity ex_t4 = 11" "size_tbl ex_t3 = 3"
    by (simp_all add: ex_t3_def ex_t4_def)
  note p = resize_policy [of h0 ex_t3 0 "''dd''" "PyObj 4" False
      "''a''" "''b''" "''c''" "''dd''" 0 "PyObj 1" False "PyObj 2" False PyNone True
      "PyObj 4" False]
  from p ex_reachable(3) obtain t' ok
    where "insert_tbl (Suc 0) h0 ex_t3 ''dd'' (PyObj 4) False = Inr (t', ok)"
      and "capacity t' \<noteq> capacity ex_t3 \<longleftrightarrow>
             ''dd'' \<notin> keys_of ex_t3
             \<and> real_of_int (size_tbl ex_t3 + 1) / real_of_int (capacity ex_t3) > 0.75"
    by blast
  with ex_run(4) c
  have "''dd'' \<notin> keys_of ex_t3
        \<and> real_of_int (size_tbl ex_t3 + 1) / real_of_int (capacity ex_t3) > 0.75"
    by simp
  moreover from p d have "\<exists>t1 t2 t3 t4.
         insert_tbl (Suc 0) h0 (init 5) ''a'' (PyObj 1) False = Inr (t1, True)
       \<and> insert_tbl (Suc 0) h0 t1 ''b'' (PyObj 2) False = Inr (t2, True)
       \<and> insert_tbl (Suc 0) h0 t2 ''c'' PyNone True = Inr (t3, True)
       \<and> insert_tbl (Suc 0) h0 t3 ''dd'' (PyObj (4::nat)) False = Inr (t4, True)
       \<and> capacity t3 = 5 \<and> capacity t4 = 11"
    by blast
  ultimately show ?thesis
    using ex_reachable(3) ex_run(4) c d by blast
qed

lemma reinsert_fuel:
  "table_inv h t \<Longrightarrow> distinct (map fst kvs) \<Longrightarrow> fst ` set kvs \<inter> keys_of t = {}
   \<Longrightarrow> 4 * (size_tbl t + int (length kvs)) \<le> 3 * capacity t
   \<Longrightarrow> reinsert n h t kvs = reinsert 0 h t kvs"
proof (induction kvs arbitrary: t)
  case Nil
  show ?case by simp
next
  case (Cons x kvs)
  obtain k v where x: "x = (k, v)" by (cases x)
  let ?a = "appended h t k v"
  have k: "k \<notin> keys_of t" using Cons.prems(3) x by auto
  have ins: "insert_tbl m h t k v True = Inr (?a, True)" for m
    using Cons.prems(4) by (simp add: insert_absent_unfold [OF Cons.prems(1) k])
  note ap = appended_props [OF Cons.prems(1) k, of v]
  have "fst ` set kvs \<inter> keys_of ?a = {}"
    using Cons.prems(2,3) x keys_of_appended [OF Cons.prems(1) k, of v] by auto
  moreover have "4 * (size_tbl ?a + int (length kvs)) \<le> 3 * capacity ?a"
    using Cons.prems(4) ap(2,3) by simp
  moreover have "distinct (map fst kvs)" using Cons.prems(2) by simp
  ultimately have "reinsert n h ?a kvs = reinsert 0 h ?a kvs"
    using Cons.IH [OF ap(1)] by blast
  then show ?case
    using ins x by simp
qed

lemma insert_fuel:
  assumes inv: "table_inv h t" and ld: "load_ok t"
  shows "insert_tbl (Suc n) h t key val allow = insert_tbl (Suc 0) h t key val allow"
proof (cases "key \<in> keys_of t")
  case True
  obtain i where "find_key key (buckets t ! slot h t key) = Some i"
    using True key_in_bucket_iff [OF inv, of key]
      find_key_None [of key "buckets t ! slot h t key"] by auto
  then show ?thesis
    by (simp add: insert_tbl_unfold [OF inv] Let_def)
next
  case False
  let ?a = "appended h t key val"
  let ?f = "\<lparr>capacity = max 5 (capacity t * 2 + 1),
              buckets = replicate (nat (max 5 (capacity t * 2 + 1))) [],
              size_tbl = 0\<rparr> :: 'a table"
  note ap = appended_props [OF inv False, of val]
  have c: "5 \<le> capacity t" using inv by (simp add: table_inv_def)
  have "table_inv h ?f" by (rule fresh_inv) simp
  moreover have "distinct (map fst (items ?a))" using ap(1) by (rule inv_distinct)
  moreover have "fst ` set (items ?a) \<inter> keys_of ?f = {}"
    by (simp add: keys_of_def fresh_items)
  moreover have "4 * (size_tbl ?f + int (length (items ?a))) \<le> 3 * capacity ?f"
    using ap(1,3) ld c by (simp add: table_inv_def load_ok_def)
  ultimately have "reinsert n h ?f (items ?a) = reinsert 0 h ?f (items ?a)"
    by (rule reinsert_fuel)
  then have "resize (Suc n) h ?a (capacity t * 2 + 1) = resize (Suc 0) h ?a (capacity t * 2 + 1)"
    by (simp add: items_def Let_def)
  then show ?thesis
    by (simp add: insert_absent_unfold [OF inv False])
qed

text \<open>
  Claim C4. For every table reachable from a freshly constructed one by \<open>insert\<close> and
  \<open>delete\<close> calls, with \<open>ks\<close> the keys inserted and not deleted: the size is the sum of the
  bucket lengths, \<open>len\<close> is the number of keys in \<open>ks\<close>, and no key occurs twice among all
  entries of all buckets.
\<close>

theorem size_invariant:
  assumes "reaches h ks t"
  shows "size_tbl t = int (sum_list (map length (buckets t)))
         \<and> len t = int (card ks)
         \<and> distinct (map fst (concat (buckets t)))"
proof -
  from reaches_inv [OF assms] have inv: "table_inv h t" and ks: "keys_of t = ks" by simp_all
  have d: "distinct (map fst (items t))" using inv by (rule inv_distinct)
  have sz: "size_tbl t = int (length (items t))" using inv by (simp add: table_inv_def)
  have "card ks = card (set (map fst (items t)))"
    using ks by (simp add: keys_of_def)
  also have "\<dots> = length (items t)"
    using distinct_card [OF d] by simp
  finally show ?thesis
    using sz d by (simp add: len_def length_items) (simp add: items_def)
qed

theorem size_invariant_witness:
  "reaches h0 {''a'', ''b'', ''c''} ex_t3
   \<and> size_tbl ex_t3 = int (sum_list (map length (buckets ex_t3)))
   \<and> len ex_t3 = int (card {''a'', ''b'', ''c''})
   \<and> len ex_t3 = 3
   \<and> distinct (map fst (concat (buckets ex_t3)))"
proof -
  have "len ex_t3 = 3" by (simp add: len_def ex_t3_def)
  then show ?thesis
    using size_invariant [OF ex_reaches(2)] ex_reaches(2) by simp
qed

text \<open>
  Claim C5. On a reachable table, an \<open>insert\<close> of a new key that takes the load factor
  \<open>(size + 1) / capacity\<close> above \<open>0.75\<close> returns success, with the table resized to
  capacity \<open>capacity * 2 + 1\<close>. Every entry present before the call is still retrievable
  afterwards: \<open>get\<close> returns the same stored value as before. The entries after the
  call are exactly the old ones and the new one, so no entry is lost and no value is
  changed, and the new key is retrievable as well.
\<close>

theorem resize_keeps_entries:
  assumes "reachable h t" and "key \<notin> keys_of t"
    and "real_of_int (size_tbl t + 1) / real_of_int (capacity t) > 0.75"
  shows "\<exists>t'. insert_tbl (Suc n) h t key val allow = Inr (t', True)
           \<and> capacity t' = capacity t * 2 + 1 \<and> capacity t' \<noteq> capacity t
           \<and> (\<forall>k v. (k, v) \<in> set (items t) \<longrightarrow>
                  get h t k = Inr v \<and> get h t' k = Inr v)
           \<and> get h t' key = Inr val
           \<and> set (items t') = insert (key, val) (set (items t))
           \<and> len t' = len t + 1"
proof -
  from reachable_inv [OF assms(1)] have inv: "table_inv h t" and ld: "load_ok t" by simp_all
  have c: "0 < capacity t" using inv by (rule inv_capacity_pos)
  have grow: "3 * capacity t < 4 * (size_tbl t + 1)"
    using assms(3) unfolding over_threshold_iff [OF c] .
  from insert_absent_grow [OF inv assms(2) ld grow, of n val allow]
  obtain t' where t': "insert_tbl (Suc n) h t key val allow = Inr (t', True)"
    "table_inv h t'" "capacity t' = capacity t * 2 + 1" "size_tbl t' = size_tbl t + 1"
    "set (items t') = insert (key, val) (set (items t))" by blast
  have old: "get h t k = Inr v \<and> get h t' k = Inr v" if e: "(k, v) \<in> set (items t)" for k v
  proof -
    from e t'(5) have "(k, v) \<in> set (items t')" by simp
    then show ?thesis
      using get_present [OF inv e] get_present [OF t'(2)] by simp
  qed
  have new: "get h t' key = Inr val"
    using t'(5) get_present [OF t'(2), of key val] by simp
  have "capacity t' \<noteq> capacity t" using t'(3) c by simp
  moreover have "len t' = len t + 1" using t'(4) by (simp add: len_def)
  ultimately show ?thesis
    using t'(1,3,5) old new by blast
qed

theorem resize_keeps_entries_witness:
  "reachable h0 ex_t3
   \<and> ''dd'' \<notin> keys_of ex_t3
   \<and> real_of_int (size_tbl ex_t3 + 1) / real_of_int (capacity ex_t3) > 0.75
   \<and> insert_tbl (Suc 0) h0 ex_t3 ''dd'' (PyObj 4) False = Inr (ex_t4, True)
   \<and> capacity ex_t3 = 5 \<and> capacity ex_t4 = 11
   \<and> (''b'', PyObj 2) \<in> set (items ex_t3)
   \<and> get h0 ex_t3 ''b'' = Inr (PyObj 2) \<and> get h0 ex_t4 ''b'' = Inr (PyObj 2)
   \<and> get h0 ex_t4 ''dd'' = Inr (PyObj 4)
   \<and> len ex_t4 = len ex_t3 + 1"
proof -
  have k: "''dd'' \<notin> keys_of ex_t3" by (simp add: keys_of_def items_def ex_t3_def)
  have l: "real_of_int (size_tbl ex_t3 + 1) / real_of_int (capacity ex_t3) > 0.75"
    by (simp add: ex_t3_def)
  have c: "capacity ex_t3 = 5" "capacity ex_t4 = 11" by (simp_all add: ex_t3_def ex_t4_def)
  have e: "(''b'', PyObj 2) \<in> set (items ex_t3)" by (simp add: ex_t3_def items_def)
  from resize_keeps_entries [OF ex_reachable(3) k l, of 0 "PyObj 4" False]
  obtain t' where t': "insert_tbl (Suc 0) h0 ex_t3 ''dd'' (PyObj 4) False = Inr (t', True)"
    "\<forall>k v. (k, v) \<in> set (items ex_t3) \<longrightarrow> get h0 ex_t3 k = Inr v \<and> get h0 t' k = Inr v"
    "get h0 t' ''dd'' = Inr (PyObj 4)" "len t' = len ex_t3 + 1" by blast
  from t'(1) ex_run(4) have eq: "t' = ex_t4" by simp
  from t'(2) e have "get h0 ex_t3 ''b'' = Inr (PyObj 2) \<and> get h0 t' ''b'' = Inr (PyObj 2)"
    by blast
  with t'(3,4) eq ex_reachable(3) ex_run(4) k l c e show ?thesis by simp
qed

lemma linear_search_hit:
  "linear_search ps q = PyObj p \<Longrightarrow> p \<in> set ps \<and> sku p = q"
  by (induction ps) (auto split: if_splits)

lemma linear_search_miss:
  "linear_search ps q = PyNone \<longleftrightarrow> q \<notin> sku ` set ps"
  by (induction ps) auto

lemma get_mirrors_linear_search:
  assumes r: "reachable h (table s)" and m: "mirrored s"
  shows "get h (table s) q = Inr (linear_search (array s) q)"
proof -
  from reachable_inv [OF r] have inv: "table_inv h (table s)" by simp
  from m have it: "set (items (table s)) = (\<lambda>p. (sku p, PyObj p)) ` set (array s)"
    by (simp add: mirrored_def)
  show ?thesis
  proof (cases "linear_search (array s) q")
    case PyNone
    then have "q \<notin> sku ` set (array s)" by (simp add: linear_search_miss)
    then have "q \<notin> keys_of (table s)"
      unfolding keys_of_def it by auto
    with PyNone show ?thesis by (simp add: get_absent [OF inv])
  next
    case (PyObj p)
    from linear_search_hit [OF this] have "(q, PyObj p) \<in> set (items (table s))"
      unfolding it by auto
    with PyObj show ?thesis by (simp add: get_present [OF inv])
  qed
qed

lemma array_pass_eq: "array_pass s qs = (map (linear_search (array s)) qs, s)"
  by (induction qs) simp_all

text \<open>
  Claim C8. When the table and the array mirror each other (the table's entries are exactly
  the array's products under their SKUs, SKUs unique), then for every query list the pass
  of \<open>table.get\<close> lookups and the pass of first-match linear scans return the same result
  for every query (the same product, or \<open>None\<close> from both), and both passes leave the
  table and the array as they were.
\<close>

theorem lookup_passes_agree:
  assumes "reachable h (table s)" and "mirrored s"
  shows "hash_pass h s qs = Inr (map (linear_search (array s)) qs, s)
         \<and> array_pass s qs = (map (linear_search (array s)) qs, s)"
proof -
  have "hash_pass h s qs = Inr (map (linear_search (array s)) qs, s)"
    by (induction qs) (simp_all add: get_mirrors_linear_search [OF assms])
  then show ?thesis by (simp add: array_pass_eq)
qed

lemma ex_inventory_ok: "reachable h0 (table ex_inventory)" "mirrored ex_inventory"
proof -
  have "insert_tbl 0 h0 (init 5) ''a'' (PyObj ex_product) True = Inr (table ex_inventory, True)"
    by (simp add: eval_simps ex_inventory_def)
  then show "reachable h0 (table ex_inventory)"
    unfolding reachable_def using reaches.ins [OF reaches.fresh] by blast
  show "mirrored ex_inventory"
    by (simp add: mirrored_def ex_inventory_def items_def ex_product_def)
qed

theorem lookup_passes_agree_witness:
  "reachable h0 (table ex_inventory) \<and> mirrored ex_inventory
   \<and> hash_pass h0 ex_inventory [''a'', ''zz'', ''a''] =
        Inr ([PyObj ex_product, PyNone, PyObj ex_product], ex_inventory)
   \<and> array_pass ex_inventory [''a'', ''zz'', ''a''] =
        ([PyObj ex_product, PyNone, PyObj ex_product], ex_inventory)"
proof -
  have "map (linear_search (array ex_inventory)) [''a'', ''zz'', ''a'']
        = [PyObj ex_product, PyNone, PyObj ex_product]"
    by (simp add: ex_inventory_def ex_product_def)
  then show ?thesis
    using lookup_passes_agree [OF ex_inventory_ok, of "[''a'', ''zz'', ''a'']"] ex_inventory_ok
    by simp
qed

text \<open>
  Claim C6. On a reachable table \<open>delete\<close> always returns. If it returns success, then
  afterwards \<open>contains(key)\<close> is false, \<open>len\<close> has decreased by exactly one and the
  capacity is unchanged. If the key is absent, \<open>delete\<close> returns failure and the table
  is unchanged; if the key is present, it returns success.
\<close>

theorem delete_correct:
  assumes "reachable h t"
  shows "(\<exists>t' ok. delete h t key = Inr (t', ok))
       \<and> (\<forall>t'. delete h t key = Inr (t', True) \<longrightarrow>
             contains h t' key = Inr False \<and> len t' = len t - 1
             \<and> capacity t' = capacity t)
       \<and> (key \<notin> keys_of t \<longrightarrow> delete h t key = Inr (t, False))
       \<and> (key \<in> keys_of t \<longrightarrow> (\<exists>t'. delete h t key = Inr (t', True)))"
proof -
  from reachable_inv [OF assms] have inv: "table_inv h t" by simp
  show ?thesis
  proof (cases "key \<in> keys_of t")
    case True
    from delete_present [OF inv True]
    obtain t' where t': "delete h t key = Inr (t', True)" "table_inv h t'"
      "capacity t' = capacity t" "size_tbl t' = size_tbl t - 1"
      "set (items t') = {e \<in> set (items t). fst e \<noteq> key}" by blast
    have "key \<notin> keys_of t'" unfolding keys_of_def t'(5) by auto
    then have "contains h t' key = Inr False"
      using get_absent [OF t'(2)] contains_unfold [of h t' key PyNone] by simp
    moreover have "len t' = len t - 1" using t'(4) by (simp add: len_def)
    ultimately show ?thesis using t'(1,3) True by auto
  next
    case False
    with delete_absent [OF inv False] show ?thesis by auto
  qed
qed

theorem delete_correct_witness:
  "reachable h0 ex_t1
   \<and> delete h0 ex_t1 ''a'' = Inr (ex_t0, True)
   \<and> contains h0 ex_t0 ''a'' = Inr False \<and> len ex_t0 = len ex_t1 - 1
   \<and> capacity ex_t0 = capacity ex_t1
   \<and> ''zz'' \<notin> keys_of ex_t1 \<and> delete h0 ex_t1 ''zz'' = Inr (ex_t1, False)
   \<and> ''a'' \<in> keys_of ex_t1"
proof -
  have d: "delete h0 ex_t1 ''a'' = Inr (ex_t0, True)"
    by (simp add: eval_simps ex_t1_def ex_t0_def)
  have k: "''zz'' \<notin> keys_of ex_t1" "''a'' \<in> keys_of ex_t1"
    by (simp_all add: keys_of_def items_def ex_t1_def)
  from delete_correct [OF ex_reachable(2), of "''a''"] d
  have a: "contains h0 ex_t0 ''a'' = Inr False \<and> len ex_t0 = len ex_t1 - 1
           \<and> capacity ex_t0 = capacity ex_t1" by blast
  from delete_correct [OF ex_reachable(2), of "''zz''"] k(1)
  have z: "delete h0 ex_t1 ''zz'' = Inr (ex_t1, False)" by blast
  from a z d k ex_reachable(2) show ?thesis by blast
qed

text \<open>
  Claim C7. Constructing a table with a requested capacity below 5 yields a table of
  capacity exactly 5 (construction has no failing branch), and every reachable table,
  fresh or after any number of resizes, has capacity at least 5.
\<close>

theorem capacity_floor:
  "(cap < 5 \<longrightarrow> capacity (init cap :: 'v table) = 5 \<and> reachable h (init cap :: 'v table))
   \<and> (reachable h (t :: 'v table) \<longrightarrow> 5 \<le> capacity t)"
proof -
  have "reachable h (init cap :: 'v table)"
    unfolding reachable_def using reaches.fresh by blast
  moreover have "reachable h t \<Longrightarrow> 5 \<le> capacity t"
    using reachable_inv [of h t] by (simp add: table_inv_def)
  ultimately show ?thesis by (auto simp: init_def)
qed

theorem capacity_floor_witness:
  "(3::int) < 5 \<and> capacity (init 3 :: nat table) = 5 \<and> reachable h0 (init 3 :: nat table)
   \<and> reachable h0 ex_t4 \<and> 5 \<le> capacity ex_t4 \<and> capacity ex_t4 = 11"
proof -
  have r: "reachable h0 ex_t4"
    using reachable_insert [OF ex_reachable(3) ex_run(4)] .
  have "capacity ex_t4 = 11" by (simp add: ex_t4_def)
  then show ?thesis
    using capacity_floor [of 3 h0 ex_t4] r by simp
qed

text \<open>
  Claim C9. Every reachable table has load factor at most \<open>0.75\<close>. Every \<open>insert\<close> call
  on it returns with fuel 1, that is with one resize at most and none nested in it: fuel 1
  lets \<open>_resize\<close> run, and the reinsertions of its loop then run with fuel 0, where a
  triggered resize would end in \<open>OutOfFuel\<close>. More fuel gives the same result.
\<close>

theorem load_factor_bounded:
  assumes "reachable h t"
  shows "(\<exists>lf. load_factor t = Inr lf \<and> lf \<le> 0.75)
       \<and> (\<exists>t' ok. insert_tbl (Suc 0) h t key val allow = Inr (t', ok)
              \<and> (\<forall>n. insert_tbl (Suc n) h t key val allow = Inr (t', ok))
              \<and> reachable h t')"
proof -
  from reachable_inv [OF assms] have inv: "table_inv h t" and ld: "load_ok t" by simp_all
  have c: "0 < capacity t" using inv by (rule inv_capacity_pos)
  have "\<not> real_of_int (size_tbl t) / real_of_int (capacity t) > 0.75"
    unfolding over_threshold_iff [OF c] using ld by (simp add: load_ok_def)
  then have lf: "\<exists>lf. load_factor t = Inr lf \<and> lf \<le> 0.75"
    using c by (simp add: load_factor_def)
  from insert_total [OF inv ld, of 0 key val allow]
  obtain t' ok where i: "insert_tbl (Suc 0) h t key val allow = Inr (t', ok)" by blast
  have "insert_tbl (Suc n) h t key val allow = Inr (t', ok)" for n
    using insert_fuel [OF inv ld, of n key val allow] i by simp
  with i lf reachable_insert [OF assms i] show ?thesis by blast
qed

theorem load_factor_bounded_witness:
  "reachable h0 ex_t3
   \<and> load_factor ex_t3 = Inr (3 / 5) \<and> (3 / 5 :: real) \<le> 0.75
   \<and> insert_tbl (Suc 0) h0 ex_t3 ''dd'' (PyObj 4) False = Inr (ex_t4, True)
   \<and> insert_tbl (Suc (Suc 0)) h0 ex_t3 ''dd'' (PyObj 4) False = Inr (ex_t4, True)"
proof -
  have lf: "load_factor ex_t3 = Inr (3 / 5)" by (simp add: load_factor_def ex_t3_def)
  from load_factor_bounded [OF ex_reachable(3), of "''dd''" "PyObj 4" False]
  obtain t' ok where "insert_tbl (Suc 0) h0 ex_t3 ''dd'' (PyObj 4) False = Inr (t', ok)"
    and "\<forall>n. insert_tbl (Suc n) h0 ex_t3 ''dd'' (PyObj 4) False = Inr (t', ok)" by blast
  then have "insert_tbl (Suc (Suc 0)) h0 ex_t3 ''dd'' (PyObj 4) False = Inr (ex_t4, True)"
    using ex_run(4) by (metis Inr_inject)
  with lf ex_reachable(3) ex_run(4) show ?thesis by simp
qed

end
